theory Spec2Isabelle
  imports Complex_Main "HOL-Library.Log_Nat"
begin

section \<open>The resize helpers of \<^verbatim>\<open>basic_resize.py\<close>\<close>

text \<open>
  The module wraps the resize filters of the video framework. It holds a table from kernel
  names to the framework's resize functions, a lookup \<^verbatim>\<open>_pick_resizer\<close>, and two entry
  points: \<^verbatim>\<open>scale\<close>, which computes a target size from a scale factor, and \<^verbatim>\<open>pixel\<close>, which
  takes the target size from its caller.

  The framework's functions are not part of the module. A call of one of them is modelled
  by the value \<open>KernelCall f clip width height\<close>, which records the function chosen and the
  arguments handed to it. An exception raised by the module, or by a Python primitive that
  the module calls, is the \<open>Inl\<close> branch of a sum type.
\<close>

subsection \<open>Data\<close>

text \<open>The seven functions \<^verbatim>\<open>core.resize.Point\<close> ... \<^verbatim>\<open>core.resize.Spline64\<close>.\<close>

datatype resize_op = Point | Bilinear | Bicubic | Lanczos | Spline16 | Spline36 | Spline64

text \<open>The exceptions that can leave the module, with their messages.\<close>

datatype error = ValueError string | OverflowError string

text \<open>
  What the module reads of a clip: \<^verbatim>\<open>clip.width\<close>, \<^verbatim>\<open>clip.height\<close> and \<^verbatim>\<open>clip.format\<close>, which is
  \<^verbatim>\<open>None\<close> or carries the two subsampling exponents. Python integers are unbounded, so the
  sizes are of type \<open>int\<close>. The framework documents the subsampling exponents as the number
  of times a chroma plane is halved, so they are natural numbers here, and \<^verbatim>\<open>1 << n\<close> is
  \<open>2 ^ n\<close>.
\<close>

record video_format =
  subsampling_w :: nat
  subsampling_h :: nat

record clip =
  width :: int
  height :: int
  format :: "video_format option"

text \<open>
  A call \<^verbatim>\<open>f(clip, width=w, height=h)\<close> of a resize function. The keyword arguments of
  \<^verbatim>\<open>pixel\<close> default to \<^verbatim>\<open>None\<close>, hence the option type.
\<close>

datatype kernel_call = KernelCall resize_op clip "int option" "int option"

subsection \<open>Python floats\<close>

text \<open>
  The scale factor is a Python \<^verbatim>\<open>float\<close>, an IEEE 754 binary64 value: a finite number, an
  infinity or a NaN. A finite value is modelled by the rational number it denotes (the two
  zeros are one value: the module never tells them apart). The result of an operation is
  the exact result rounded to the nearest binary64 value, ties to the even significand,
  and an infinity when the rounded magnitude reaches \<open>2 ^ 1024\<close>.
\<close>

datatype pyfloat = Finite rat | PosInf | NegInf | NaN

text \<open>
  \<open>floor_log2 x\<close> is the exponent \<open>e\<close> with \<open>2 ^ e \<le> \<bar>x\<bar> < 2 ^ (e + 1)\<close>, for \<open>x \<noteq> 0\<close>,
  computed from the bit length of the integer part of \<open>\<bar>x\<bar>\<close> or of its reciprocal.
\<close>

definition floor_log2 :: "rat \<Rightarrow> int" where
  "floor_log2 x =
     (if 1 \<le> \<bar>x\<bar> then bitlen \<lfloor>\<bar>x\<bar>\<rfloor> - 1 else - bitlen (\<lceil>1 / \<bar>x\<bar>\<rceil> - 1))"

definition round_half_even :: "rat \<Rightarrow> int" where
  "round_half_even y =
     (let f = \<lfloor>y\<rfloor>; d = y - of_int f
      in if d < 1 / 2 then f
         else if 1 / 2 < d then f + 1
         else if even f then f else f + 1)"

text \<open>
  A binary64 significand has 53 bits, and the least exponent of the last bit is \<open>- 1074\<close>
  (the subnormal numbers). So \<open>x\<close> is rounded to a multiple of \<open>2 ^ q\<close>, where \<open>q\<close> is the
  exponent of the last bit of a 53-bit significand at the magnitude of \<open>x\<close>.
\<close>

definition round_binary64 :: "rat \<Rightarrow> pyfloat" where
  "round_binary64 x =
     (if x = 0 then Finite 0
      else let q = max (floor_log2 x - 52) (- 1074);
               r = of_int (round_half_even (x / 2 powi q)) * 2 powi q
           in if 2 ^ 1024 \<le> r then PosInf
              else if r \<le> - (2 ^ 1024) then NegInf
              else Finite r)"

text \<open>The comparison \<^verbatim>\<open>x <= 0\<close>, which is false for a NaN.\<close>

definition float_le_zero :: "pyfloat \<Rightarrow> bool" where
  "float_le_zero x =
     (case x of Finite q \<Rightarrow> q \<le> 0 | PosInf \<Rightarrow> False | NegInf \<Rightarrow> True | NaN \<Rightarrow> False)"

text \<open>
  The conversion of the integer operand of a mixed product. It rounds, and raises
  \<^verbatim>\<open>OverflowError\<close> for an integer beyond the range of binary64.
\<close>

definition float_of_int :: "int \<Rightarrow> error + pyfloat" where
  "float_of_int n =
     (case round_binary64 (of_int n) of
        Finite q \<Rightarrow> Inr (Finite q)
      | _ \<Rightarrow> Inl (OverflowError ''int too large to convert to float''))"

text \<open>The product of two floats.\<close>

fun float_mul :: "pyfloat \<Rightarrow> pyfloat \<Rightarrow> pyfloat" where
  "float_mul NaN y = NaN"
| "float_mul x NaN = NaN"
| "float_mul (Finite a) (Finite b) = round_binary64 (a * b)"
| "float_mul (Finite a) y =
     (if a = 0 then NaN else if (0 < a) = (y = PosInf) then PosInf else NegInf)"
| "float_mul x (Finite b) =
     (if b = 0 then NaN else if (0 < b) = (x = PosInf) then PosInf else NegInf)"
| "float_mul x y = (if x = y then PosInf else NegInf)"

text \<open>\<^verbatim>\<open>n * x\<close> for an integer \<open>n\<close> and a float \<open>x\<close>.\<close>

definition int_mul_float :: "int \<Rightarrow> pyfloat \<Rightarrow> error + pyfloat" where
  "int_mul_float n x =
     (case float_of_int n of Inl e \<Rightarrow> Inl e | Inr y \<Rightarrow> Inr (float_mul y x))"

text \<open>
  \<^verbatim>\<open>int(x)\<close> truncates towards zero, and raises \<^verbatim>\<open>ValueError\<close> for a NaN and
  \<^verbatim>\<open>OverflowError\<close> for an infinity.
\<close>

definition int_of_float :: "pyfloat \<Rightarrow> error + int" where
  "int_of_float x =
     (case x of
        Finite q \<Rightarrow> Inr (if 0 \<le> q then \<lfloor>q\<rfloor> else \<lceil>q\<rceil>)
      | NaN \<Rightarrow> Inl (ValueError ''cannot convert float NaN to integer'')
      | _ \<Rightarrow> Inl (OverflowError ''cannot convert float infinity to integer''))"

subsection \<open>The kernel registry and its lookup\<close>

text \<open>
  \<^verbatim>\<open>_KERNELS\<close> is a dictionary literal. Joining a dictionary yields its keys in insertion
  order, so the table is an association list in the order of the source.
\<close>

definition KERNELS :: "(string \<times> resize_op) list" where
  "KERNELS =
     [(''point'', Point),
      (''bilinear'', Bilinear),
      (''bicubic'', Bicubic),
      (''lanczos'', Lanczos),
      (''spline16'', Spline16),
      (''spline36'', Spline36),
      (''spline64'', Spline64)]"

text \<open>
  \<^verbatim>\<open>str.lower\<close> on the characters of a HOL string, which are bytes: the capital letters
  \<^verbatim>\<open>A\<close> to \<^verbatim>\<open>Z\<close> (codes 65 to 90) move to the small ones, every other byte stays. The bytes
  of a character outside ASCII stay as they are. In Python the lowercase form of such a
  character has a character outside ASCII too, unless it is the Kelvin sign, whose
  lowercase is \<^verbatim>\<open>k\<close>, a letter that no kernel name has: a name with a character outside
  ASCII matches no key, in Python as here.
\<close>

definition lower_char :: "char \<Rightarrow> char" where
  "lower_char c =
     (let n = (of_char c :: nat)
      in if 65 \<le> n \<and> n \<le> 90 then char_of (n + 32) else c)"

definition lower :: "string \<Rightarrow> string" where
  "lower s = map lower_char s"

text \<open>\<^verbatim>\<open>sep.join(xs)\<close>.\<close>

fun join :: "string \<Rightarrow> string list \<Rightarrow> string" where
  "join sep [] = []"
| "join sep [x] = x"
| "join sep (x # y # ys) = x @ sep @ join sep (y # ys)"

text \<open>
  \<^verbatim>\<open>_pick_resizer\<close> reads the module's global table when it is called, so the table is an
  argument. The \<^verbatim>\<open>KeyError\<close> of a missing key is caught and replaced by a \<^verbatim>\<open>ValueError\<close>
  whose message quotes the name as given and joins the keys of the table.
\<close>

definition pick_resizer :: "(string \<times> resize_op) list \<Rightarrow> string \<Rightarrow> error + resize_op" where
  "pick_resizer reg kname =
     (case map_of reg (lower kname) of
        Some f \<Rightarrow> Inr f
      | None \<Rightarrow>
          Inl (ValueError (''Unknown kernel '' @ [CHR 0x27] @ kname @ [CHR 0x27]
                 @ ''. Choose from: '' @ join '', '' (map fst reg))))"

subsection \<open>Resizing to explicit pixel dimensions\<close>

definition pixel ::
  "(string \<times> resize_op) list \<Rightarrow> clip \<Rightarrow> int option \<Rightarrow> int option \<Rightarrow> string
     \<Rightarrow> error + kernel_call" where
  "pixel reg c w h kname =
     (case pick_resizer reg kname of
        Inl e \<Rightarrow> Inl e
      | Inr f \<Rightarrow> Inr (KernelCall f c w h))"

subsection \<open>Resizing by a scale factor\<close>

text \<open>
  The provisional size of one axis, \<^verbatim>\<open>max(1, int(dim * scale))\<close>, which the source computes
  for the width and then for the height.
\<close>

definition provisional :: "int \<Rightarrow> pyfloat \<Rightarrow> error + int" where
  "provisional d s =
     (case int_mul_float d s of
        Inl e \<Rightarrow> Inl e
      | Inr p \<Rightarrow> (case int_of_float p of Inl e \<Rightarrow> Inl e | Inr i \<Rightarrow> Inr (max 1 i)))"

text \<open>
  The adjustment of one axis to its modulus:
  \<^verbatim>\<open>if mod > 1: w = max(mod, w - (w % mod))\<close>. The modulus is positive, where Python's
  \<^verbatim>\<open>%\<close> and \<open>mod\<close> agree.
\<close>

definition align_mod :: "int \<Rightarrow> int \<Rightarrow> int" where
  "align_mod m w = (if 1 < m then max m (w - w mod m) else w)"

text \<open>
  \<^verbatim>\<open>scale\<close>. The check of the scale factor comes first, then the provisional width, the
  provisional height, the adjustment to the subsampling of the format, and last the lookup
  of the kernel, whose result is called with the final size.
\<close>

definition scale ::
  "(string \<times> resize_op) list \<Rightarrow> clip \<Rightarrow> pyfloat \<Rightarrow> string \<Rightarrow> error + kernel_call" where
  "scale reg c s kname =
     (if float_le_zero s then Inl (ValueError ''scale must be > 0'')
      else
        case provisional (width c) s of
          Inl e \<Rightarrow> Inl e
        | Inr w \<Rightarrow>
           (case provisional (height c) s of
              Inl e \<Rightarrow> Inl e
            | Inr h \<Rightarrow>
               (let (w, h) =
                      (case format c of
                         None \<Rightarrow> (w, h)
                       | Some fmt \<Rightarrow>
                           (let mod_w = 2 ^ subsampling_w fmt;
                                mod_h = 2 ^ subsampling_h fmt
                            in (align_mod mod_w w, align_mod mod_h h)))
                in case pick_resizer reg kname of
                     Inl e \<Rightarrow> Inl e
                   | Inr f \<Rightarrow> Inr (KernelCall f c (Some w) (Some h)))))"

subsection \<open>The target size in the words of the specification\<close>

text \<open>
  Follows the specification: the provisional dimension \<open>p\<close> rounded down to the nearest
  multiple of \<open>2 ^ n\<close>, and never below \<open>2 ^ n\<close> itself.
\<close>

definition spec_final_dim :: "nat \<Rightarrow> int \<Rightarrow> int" where
  "spec_final_dim n p = max (2 ^ n) (p div 2 ^ n * 2 ^ n)"

section \<open>Properties\<close>

subsection \<open>Kernel lookup\<close>

lemma lower_kernel_names:
  "lower ''point'' = ''point''" "lower ''bilinear'' = ''bilinear''"
  "lower ''bicubic'' = ''bicubic''" "lower ''lanczos'' = ''lanczos''"
  "lower ''spline16'' = ''spline16''" "lower ''spline36'' = ''spline36''"
  "lower ''spline64'' = ''spline64''"
  by (simp_all add: lower_def lower_char_def)

text \<open>
  Claim C4. A name that matches one of the seven supported kernel names up to case is
  found: the lookup returns the resize function that the table holds under the lowercased
  name, which is the function of that kernel.
\<close>

theorem pick_resizer_supported:
  assumes "(n, f) \<in> set [(''point'', Point), (''bilinear'', Bilinear), (''bicubic'', Bicubic),
             (''lanczos'', Lanczos), (''spline16'', Spline16), (''spline36'', Spline36),
             (''spline64'', Spline64)]"
    and "lower kname = lower n"
  shows "pick_resizer KERNELS kname = Inr f \<and> map_of KERNELS (lower kname) = Some f"
proof -
  from assms(1) have "lower n = n \<and> map_of KERNELS n = Some f"
    by (auto simp: lower_kernel_names KERNELS_def)
  with assms(2) show ?thesis
    by (simp add: pick_resizer_def)
qed

theorem pick_resizer_supported_witness:
  "(''bilinear'', Bilinear) \<in> set [(''point'', Point), (''bilinear'', Bilinear),
      (''bicubic'', Bicubic), (''lanczos'', Lanczos), (''spline16'', Spline16),
      (''spline36'', Spline36), (''spline64'', Spline64)]
   \<and> lower ''BiLinear'' = lower ''bilinear''
   \<and> pick_resizer KERNELS ''BiLinear'' = Inr Bilinear"
proof -
  have m: "(''bilinear'', Bilinear) \<in> set [(''point'', Point), (''bilinear'', Bilinear),
      (''bicubic'', Bicubic), (''lanczos'', Lanczos), (''spline16'', Spline16),
      (''spline36'', Spline36), (''spline64'', Spline64)]"
    by simp
  have l: "lower ''BiLinear'' = lower ''bilinear''"
    by code_simp
  from pick_resizer_supported [OF m l] m l show ?thesis
    by blast
qed

text \<open>
  Claim C5. A name that matches none of the seven supported kernel names up to case is
  rejected with a \<^verbatim>\<open>ValueError\<close>. Its message quotes the name and then lists the seven
  names: point, bilinear, bicubic, lanczos, spline16, spline36, spline64.
\<close>

theorem pick_resizer_unsupported:
  assumes "lower kname \<notin> set (map lower [''point'', ''bilinear'', ''bicubic'', ''lanczos'',
             ''spline16'', ''spline36'', ''spline64''])"
  shows "pick_resizer KERNELS kname =
           Inl (ValueError (''Unknown kernel '' @ [CHR 0x27] @ kname @ [CHR 0x27]
             @ ''. Choose from: point, bilinear, bicubic, lanczos, spline16, spline36, spline64''))"
proof -
  from assms have "map_of KERNELS (lower kname) = None"
    by (simp add: lower_kernel_names KERNELS_def)
  then show ?thesis
    by (simp add: pick_resizer_def KERNELS_def)
qed

theorem pick_resizer_unsupported_witness:
  "lower ''Nearest'' \<notin> set (map lower [''point'', ''bilinear'', ''bicubic'', ''lanczos'',
       ''spline16'', ''spline36'', ''spline64''])
   \<and> pick_resizer KERNELS ''Nearest'' =
       Inl (ValueError ''Unknown kernel 'Nearest'. Choose from: point, bilinear, bicubic, lanczos, spline16, spline36, spline64'')"
proof -
  have h: "lower ''Nearest'' \<notin> set (map lower [''point'', ''bilinear'', ''bicubic'',
       ''lanczos'', ''spline16'', ''spline36'', ''spline64''])"
    by code_simp
  from pick_resizer_unsupported [OF h] h show ?thesis
    by simp
qed

subsection \<open>Resizing to explicit pixel dimensions\<close>

text \<open>
  Claim C6. \<^verbatim>\<open>pixel\<close> hands the clip and the caller's width and height to the selected
  kernel as they are, and the lookup of the kernel name is its only check: it calls the
  kernel whenever the lookup succeeds, and an error it raises is the error of the lookup.
\<close>

theorem pixel_passes_through:
  "(pick_resizer reg kname = Inr f \<longrightarrow> pixel reg c w h kname = Inr (KernelCall f c w h))
   \<and> (pixel reg c w h kname = Inl e \<longrightarrow> pick_resizer reg kname = Inl e)"
  by (simp add: pixel_def split: sum.splits)

theorem pixel_passes_through_witness:
  "pick_resizer KERNELS ''lanczos'' = Inr Lanczos
   \<and> pixel KERNELS \<lparr>width = 640, height = 480, format = None\<rparr> (Some 0) (Some (- 7)) ''lanczos''
       = Inr (KernelCall Lanczos \<lparr>width = 640, height = 480, format = None\<rparr> (Some 0) (Some (- 7)))
   \<and> pixel KERNELS \<lparr>width = 640, height = 480, format = None\<rparr> None (Some 3) ''box''
       = Inl (ValueError ''Unknown kernel 'box'. Choose from: point, bilinear, bicubic, lanczos, spline16, spline36, spline64'')
   \<and> pick_resizer KERNELS ''box''
       = Inl (ValueError ''Unknown kernel 'box'. Choose from: point, bilinear, bicubic, lanczos, spline16, spline36, spline64'')"
proof -
  let ?c = "\<lparr>width = 640, height = 480, format = None\<rparr>"
  let ?e = "ValueError ''Unknown kernel 'box'. Choose from: point, bilinear, bicubic, lanczos, spline16, spline36, spline64''"
  have p: "pick_resizer KERNELS ''lanczos'' = Inr Lanczos"
    by code_simp
  have q: "pixel KERNELS ?c None (Some 3) ''box'' = Inl ?e"
    by code_simp
  from pixel_passes_through [of KERNELS "''lanczos''" Lanczos ?c "Some 0" "Some (- 7)" ?e] p
  have a: "pixel KERNELS ?c (Some 0) (Some (- 7)) ''lanczos'' = Inr (KernelCall Lanczos ?c (Some 0) (Some (- 7)))"
    by simp
  from pixel_passes_through [of KERNELS "''box''" Lanczos ?c None "Some 3" ?e] q
  have b: "pick_resizer KERNELS ''box'' = Inl ?e"
    by simp
  from p a q b show ?thesis
    by simp
qed

subsection \<open>Binary64 rounding\<close>

lemma round_half_even_of_int: "round_half_even (of_int j) = j"
  by (simp add: round_half_even_def)

lemma floor_log2_bounds:
  assumes "x \<noteq> 0"
  shows "2 powi floor_log2 x \<le> \<bar>x\<bar> \<and> \<bar>x\<bar> < 2 powi (floor_log2 x + 1)"
proof (cases "1 \<le> \<bar>x\<bar>")
  case True
  define n where "n = \<lfloor>\<bar>x\<bar>\<rfloor>"
  define b where "b = nat (bitlen n - 1)"
  have n: "0 < n"
    using True by (simp add: n_def)
  then have "1 \<le> bitlen n"
    using bitlen_eq_zero_iff [of n] bitlen_nonneg [of n] by linarith
  then have fl: "floor_log2 x = int b" and bl: "nat (bitlen n) = Suc b"
    using True by (simp_all add: floor_log2_def n_def b_def)
  from bitlen_bounds [OF n] have lo: "2 ^ b \<le> n" and hi: "n < 2 ^ Suc b"
    by (simp_all add: b_def [symmetric] bl)
  have "(of_int (2 ^ b) :: rat) \<le> of_int n"
    using lo by (simp only: of_int_le_iff)
  also have "\<dots> \<le> \<bar>x\<bar>"
    by (simp add: n_def)
  finally have 1: "2 powi floor_log2 x \<le> \<bar>x\<bar>"
    by (simp add: fl)
  have "n + 1 \<le> 2 ^ Suc b"
    using hi by simp
  then have "(of_int (n + 1) :: rat) \<le> of_int (2 ^ Suc b)"
    by (simp only: of_int_le_iff)
  moreover have "\<bar>x\<bar> < of_int (n + 1)"
    using floor_correct [of "\<bar>x\<bar>"] by (simp add: n_def)
  ultimately have "\<bar>x\<bar> < 2 ^ Suc b"
    by simp
  then have 2: "\<bar>x\<bar> < 2 powi (floor_log2 x + 1)"
    by (simp add: fl power_int_add)
  from 1 2 show ?thesis ..
next
  case False
  define y where "y = 1 / \<bar>x\<bar>"
  define n where "n = \<lceil>y\<rceil> - 1"
  define b where "b = nat (bitlen n - 1)"
  have pm: "(2::rat) powi (- int k) = 1 / 2 ^ k" for k
    by (simp add: power_int_minus inverse_eq_divide)
  have xpos: "0 < \<bar>x\<bar>"
    using assms by simp
  have y: "1 < y"
    using False xpos by (simp add: y_def)
  then have "2 \<le> \<lceil>y\<rceil>"
    by (simp add: le_ceiling_iff)
  then have n: "0 < n"
    by (simp add: n_def)
  then have "1 \<le> bitlen n"
    using bitlen_eq_zero_iff [of n] bitlen_nonneg [of n] by linarith
  then have fl: "floor_log2 x = - int (Suc b)" and bl: "nat (bitlen n) = Suc b"
    using False by (simp_all add: floor_log2_def n_def y_def b_def)
  from bitlen_bounds [OF n] have lo: "2 ^ b \<le> n" and hi: "n < 2 ^ Suc b"
    by (simp_all add: b_def [symmetric] bl)
  have ny: "of_int n < y" and yn: "y \<le> of_int (n + 1)"
    using ceiling_correct [of y] by (simp_all add: n_def)
  have "n + 1 \<le> 2 ^ Suc b"
    using hi by simp
  then have "(of_int (n + 1) :: rat) \<le> of_int (2 ^ Suc b)"
    by (simp only: of_int_le_iff)
  with yn have "y \<le> 2 ^ Suc b"
    by simp
  then have "1 / 2 ^ Suc b \<le> \<bar>x\<bar>"
    using xpos by (simp add: y_def field_simps)
  then have 1: "2 powi floor_log2 x \<le> \<bar>x\<bar>"
    unfolding fl pm .
  have "(2::rat) ^ b \<le> of_int n"
    using lo of_int_le_iff [of "2 ^ b" n, where ?'a = rat] by simp
  with ny have "2 ^ b < y"
    by linarith
  then have "\<bar>x\<bar> < 1 / 2 ^ b"
    using xpos by (simp add: y_def field_simps)
  moreover have "floor_log2 x + 1 = - int b"
    by (simp add: fl)
  ultimately have 2: "\<bar>x\<bar> < 2 powi (floor_log2 x + 1)"
    by (simp only: pm)
  from 1 2 show ?thesis ..
qed

lemma floor_log2_less:
  assumes "x \<noteq> 0" and "\<bar>x\<bar> < 2 ^ n"
  shows "floor_log2 x < int n"
proof (cases "1 \<le> \<bar>x\<bar>")
  case True
  have "\<lfloor>\<bar>x\<bar>\<rfloor> < 2 ^ n"
    using assms(2) by (simp add: floor_less_iff)
  then have "bitlen \<lfloor>\<bar>x\<bar>\<rfloor> \<le> int n"
    by (simp add: bitlen_le_iff_power)
  with True show ?thesis
    by (simp add: floor_log2_def)
next
  case False
  with assms(1) have "1 < 1 / \<bar>x\<bar>"
    by simp
  then have "2 \<le> \<lceil>1 / \<bar>x\<bar>\<rceil>"
    by (simp add: le_ceiling_iff)
  then have "0 < bitlen (\<lceil>1 / \<bar>x\<bar>\<rceil> - 1)"
    using bitlen_eq_zero_iff [of "\<lceil>1 / \<bar>x\<bar>\<rceil> - 1"] bitlen_nonneg [of "\<lceil>1 / \<bar>x\<bar>\<rceil> - 1"]
    by linarith
  with False show ?thesis
    by (simp add: floor_log2_def)
qed

lemma floor_log2_less_powi:
  assumes "x \<noteq> 0" and "\<bar>x\<bar> < 2 powi e"
  shows "floor_log2 x < e"
proof (cases "0 \<le> e")
  case True
  then have "\<bar>x\<bar> < 2 ^ nat e"
    using assms(2) by (simp add: power_int_def)
  from floor_log2_less [OF assms(1) this] True show ?thesis
    by simp
next
  case False
  define j where "j = nat (- e)"
  have e: "e = - int j" and j: "0 < j"
    using False by (simp_all add: j_def)
  have xj: "\<bar>x\<bar> < 1 / 2 ^ j"
    using assms(2) by (simp add: e power_int_minus inverse_eq_divide)
  have xpos: "0 < \<bar>x\<bar>"
    using assms(1) by simp
  have "1 / 2 ^ j \<le> (1::rat)"
    by simp
  with xj have small: "\<not> 1 \<le> \<bar>x\<bar>"
    by linarith
  have "2 ^ j < 1 / \<bar>x\<bar>"
    using xj xpos by (simp add: field_simps)
  then have "2 ^ j < \<lceil>1 / \<bar>x\<bar>\<rceil>"
    by (simp add: less_ceiling_iff)
  then have "2 ^ j \<le> \<lceil>1 / \<bar>x\<bar>\<rceil> - 1"
    by simp
  then have "int j + 1 \<le> bitlen (\<lceil>1 / \<bar>x\<bar>\<rceil> - 1)"
    by (simp add: bitlen_ge_iff_power nat_add_distrib)
  with small show ?thesis
    by (simp add: floor_log2_def e)
qed

lemma round_binary64_dyadic:
  assumes "\<bar>m\<bar> < 2 ^ 53" and "k \<le> 1074"
  shows "round_binary64 (of_int m / 2 ^ k) = Finite (of_int m / 2 ^ k)"
proof (cases "m = 0")
  case True
  then show ?thesis by (simp add: round_binary64_def)
next
  case False
  define x :: rat where "x = of_int m / 2 ^ k"
  define q where "q = max (floor_log2 x - 52) (- 1074)"
  define j where "j = nat (- q)"
  have x0: "x \<noteq> 0"
    using False by (simp add: x_def)
  have "\<bar>of_int m :: rat\<bar> < 2 ^ 53"
    using assms(1) by (simp flip: of_int_abs add: of_int_less_numeral_power_cancel_iff)
  then have ax: "\<bar>x\<bar> < 2 ^ 53 / 2 ^ k"
    by (simp add: x_def abs_divide divide_strict_right_mono)
  have "(2::rat) ^ 53 / 2 ^ k = 2 powi (53 - int k)"
    by (simp add: power_int_diff)
  with ax have "floor_log2 x < 53 - int k"
    using floor_log2_less_powi [OF x0] by simp
  with assms(2) have qk: "q \<le> - int k"
    by (simp add: q_def)
  then have q: "q = - int j" and kj: "k \<le> j"
    by (simp_all add: j_def)
  have pq: "(2::rat) powi q = 1 / 2 ^ j"
    by (simp add: q power_int_minus inverse_eq_divide)
  have "x / 2 powi q = of_int m * (2 ^ j / 2 ^ k)"
    by (simp add: pq x_def)
  also have "(2::rat) ^ j / 2 ^ k = 2 ^ (j - k)"
    using kj by (simp add: power_diff)
  finally have "x / 2 powi q = of_int (m * 2 ^ (j - k))"
    by simp
  then have "of_int (round_half_even (x / 2 powi q)) = x / 2 powi q"
    by (simp only: round_half_even_of_int)
  then have r: "of_int (round_half_even (x / 2 powi q)) * 2 powi q = x"
    by (simp add: pq)
  have "(2::rat) ^ 53 / 2 ^ k \<le> 2 ^ 53"
    by (simp add: field_simps)
  also have "\<dots> < 2 ^ 1024"
    by simp
  finally have "\<bar>x\<bar> < 2 ^ 1024"
    using ax by linarith
  then have "\<not> 2 ^ 1024 \<le> x" "\<not> x \<le> - (2 ^ 1024)"
    by linarith+
  with r x0 show ?thesis
    unfolding round_binary64_def x_def [symmetric] q_def [symmetric] Let_def
    by simp
qed

text \<open>
  Rounding moves a number by at most half a unit of the last place, and the result is
  finite for a number below \<open>2 ^ 1023\<close> in magnitude.
\<close>

lemma round_half_even_near:
  "\<bar>of_int (round_half_even y) - y\<bar> \<le> 1 / 2"
proof -
  have "of_int \<lfloor>y\<rfloor> \<le> y" "y < of_int \<lfloor>y\<rfloor> + 1"
    using floor_correct [of y] by simp_all
  then show ?thesis
    by (auto simp: round_half_even_def Let_def abs_le_iff)
qed

lemma round_binary64_finite:
  assumes "\<bar>x\<bar> < 2 ^ 1023"
  shows "\<exists>r. round_binary64 x = Finite r
           \<and> \<bar>r - x\<bar> \<le> 2 powi (max (floor_log2 x - 52) (- 1074)) / 2"
proof (cases "x = 0")
  case True
  then show ?thesis
    by (simp add: round_binary64_def)
next
  case False
  define q where "q = max (floor_log2 x - 52) (- 1074)"
  define u :: rat where "u = 2 powi q"
  define r where "r = of_int (round_half_even (x / u)) * u"
  have u0: "0 < u"
    by (simp add: u_def)
  have "\<bar>of_int (round_half_even (x / u)) - x / u\<bar> * u \<le> 1 / 2 * u"
    using round_half_even_near [of "x / u"] u0 by (intro mult_right_mono) simp_all
  also have "\<bar>of_int (round_half_even (x / u)) - x / u\<bar> * u
               = \<bar>(of_int (round_half_even (x / u)) - x / u) * u\<bar>"
    using u0 by (simp add: abs_mult)
  also have "(of_int (round_half_even (x / u)) - x / u) * u = r - x"
    using u0 by (simp add: r_def left_diff_distrib)
  finally have near: "\<bar>r - x\<bar> \<le> u / 2"
    by simp
  have "u \<le> \<bar>x\<bar> + 1"
  proof (cases "floor_log2 x - 52 \<le> - 1074")
    case True
    then have "q = - 1074"
      by (simp add: q_def)
    then have "u \<le> 1"
      by (simp add: u_def power_int_minus inverse_eq_divide field_simps)
    then show ?thesis
      by simp
  next
    case False
    then have "q = floor_log2 x - 52"
      by (simp add: q_def)
    then have "u = 2 powi floor_log2 x / 2 ^ 52"
      by (simp add: u_def power_int_diff)
    also have "\<dots> \<le> 2 powi floor_log2 x"
      by (simp add: field_simps)
    also have "\<dots> \<le> \<bar>x\<bar>"
      using floor_log2_bounds [OF \<open>x \<noteq> 0\<close>] by simp
    finally show ?thesis
      by simp
  qed
  moreover define B :: rat where "B = 2 ^ 1023"
  moreover have "\<bar>x\<bar> < B" "1 \<le> B"
    using assms by (simp_all add: B_def)
  ultimately have "\<bar>r\<bar> < 2 * B"
    using near by linarith
  moreover have "2 * B = 2 ^ 1024"
    by (simp add: B_def)
  ultimately have "\<bar>r\<bar> < 2 ^ 1024"
    by (simp only:)
  then have "\<not> 2 ^ 1024 \<le> r" "\<not> r \<le> - (2 ^ 1024)"
    by linarith+
  with False near show ?thesis
    unfolding round_binary64_def q_def [symmetric] Let_def u_def [symmetric] r_def [symmetric]
    by (simp add: u_def)
qed

text \<open>
  The exponent is determined by its two bounds, so a number whose magnitude lies between
  two powers of 2 in the normal range is rounded at the last bit of that binade.
\<close>

lemma floor_log2_eq:
  assumes "2 powi e \<le> \<bar>x\<bar>" and "\<bar>x\<bar> < 2 powi (e + 1)"
  shows "floor_log2 x = e"
proof -
  have x: "x \<noteq> 0"
  proof
    assume "x = 0"
    with assms(1) have "(2::rat) powi e \<le> 0"
      by simp
    moreover have "(0::rat) < 2 powi e"
      by (rule zero_less_power_int) simp
    ultimately show False
      by (blast dest: leD)
  qed
  note b = floor_log2_bounds [OF x]
  have "\<not> floor_log2 x < e"
  proof
    assume "floor_log2 x < e"
    then have "(2::rat) powi (floor_log2 x + 1) \<le> 2 powi e"
      by (intro power_int_increasing) simp_all
    with b assms(1) show False
      by linarith
  qed
  moreover have "\<not> e < floor_log2 x"
  proof
    assume "e < floor_log2 x"
    then have "(2::rat) powi (e + 1) \<le> 2 powi floor_log2 x"
      by (intro power_int_increasing) simp_all
    with b assms(2) show False
      by linarith
  qed
  ultimately show ?thesis
    by linarith
qed

lemma round_binary64_normal:
  assumes "2 powi e \<le> \<bar>x\<bar>" and "\<bar>x\<bar> < 2 powi (e + 1)" and "- 1022 \<le> e"
    and "r = of_int (round_half_even (x / 2 powi (e - 52))) * 2 powi (e - 52)"
    and "\<bar>r\<bar> < 2 ^ 1024"
  shows "round_binary64 x = Finite r"
proof -
  have x: "x \<noteq> 0"
  proof
    assume "x = 0"
    with assms(1) have "(2::rat) powi e \<le> 0"
      by simp
    moreover have "(0::rat) < 2 powi e"
      by (rule zero_less_power_int) simp
    ultimately show False
      by (blast dest: leD)
  qed
  have q: "max (floor_log2 x - 52) (- 1074) = e - 52"
    using assms(3) by (simp add: floor_log2_eq [OF assms(1,2)])
  from assms(5) have "\<not> 2 ^ 1024 \<le> r" "\<not> r \<le> - (2 ^ 1024)"
    by linarith+
  with x show ?thesis
    unfolding round_binary64_def q Let_def assms(4) [symmetric]
    by simp
qed

subsection \<open>Python arithmetic\<close>

lemma float_of_int_exact:
  assumes "\<bar>n\<bar> < 2 ^ 53"
  shows "float_of_int n = Inr (Finite (of_int n))"
  using round_binary64_dyadic [OF assms, of 0] by (simp add: float_of_int_def)

lemma int_mul_float_dyadic:
  assumes "\<bar>n\<bar> < 2 ^ 53" and "\<bar>n * m\<bar> < 2 ^ 53" and "k \<le> 1074"
  shows "int_mul_float n (Finite (of_int m / 2 ^ k)) = Inr (Finite (of_int (n * m) / 2 ^ k))"
  using round_binary64_dyadic [OF assms(2,3)]
  by (simp add: int_mul_float_def float_of_int_exact [OF assms(1)])

lemma int_mul_float_finite:
  assumes "\<bar>n\<bar> < 2 ^ 53" and "\<bar>of_int n * q\<bar> < 2 ^ 1023"
  shows "\<exists>p. int_mul_float n (Finite q) = Inr (Finite p)
           \<and> \<bar>p - of_int n * q\<bar> \<le> 2 powi (max (floor_log2 (of_int n * q) - 52) (- 1074)) / 2"
  using round_binary64_finite [OF assms(2)]
  by (auto simp: int_mul_float_def float_of_int_exact [OF assms(1)])

lemma floor_rat_numeral:
  "\<lfloor>numeral a / numeral b :: rat\<rfloor> = numeral a div numeral b"
  using floor_divide_of_int_eq [of "numeral a" "numeral b", where ?'a = rat] by simp

lemma max_one_truncate:
  "max 1 (if 0 \<le> q then \<lfloor>q\<rfloor> else \<lceil>q\<rceil>) = max 1 \<lfloor>q :: rat\<rfloor>"
proof (cases "0 \<le> q")
  case True
  then show ?thesis by simp
next
  case False
  then have "\<lceil>q\<rceil> \<le> 0" "\<lfloor>q\<rfloor> \<le> 0"
    by (simp_all add: ceiling_le_iff floor_le_iff)
  with False show ?thesis by simp
qed

lemma provisional_Finite:
  assumes "int_mul_float d s = Inr (Finite p)"
  shows "provisional d s = Inr (max 1 \<lfloor>p\<rfloor>)"
  using assms by (simp add: provisional_def int_of_float_def max_one_truncate)

lemma provisional_InrD:
  assumes "provisional d s = Inr i"
  shows "\<exists>p. int_mul_float d s = Inr (Finite p) \<and> i = max 1 \<lfloor>p\<rfloor>"
  using assms
  by (auto simp: provisional_def int_of_float_def max_one_truncate
           split: sum.splits pyfloat.splits)

lemma provisional_ge_one:
  "provisional d s = Inr i \<Longrightarrow> 1 \<le> i"
  by (auto dest: provisional_InrD)

subsection \<open>The adjustment to the modulus\<close>

lemma align_mod_one: "align_mod (2 ^ 0) w = w"
  by (simp add: align_mod_def)

lemma align_mod_spec:
  assumes "0 < n"
  shows "align_mod (2 ^ n) p = spec_final_dim n p"
proof -
  have "(1::int) < 2 ^ n"
    using assms by simp
  moreover have "p - p mod 2 ^ n = p div 2 ^ n * 2 ^ n"
    by (simp add: minus_mod_eq_div_mult)
  ultimately show ?thesis
    by (simp add: align_mod_def spec_final_dim_def)
qed

lemma spec_final_dim_props:
  assumes "0 \<le> p"
  shows "2 ^ n dvd spec_final_dim n p"
    and "2 ^ n \<le> spec_final_dim n p"
    and "2 ^ n \<le> p \<Longrightarrow> spec_final_dim n p \<le> p \<and> p < spec_final_dim n p + 2 ^ n"
    and "p < 2 ^ n \<Longrightarrow> spec_final_dim n p = 2 ^ n"
proof -
  let ?m = "2 ^ n :: int"
  have m: "0 < ?m" by simp
  show "?m dvd spec_final_dim n p"
    by (simp add: spec_final_dim_def max_def)
  show "?m \<le> spec_final_dim n p"
    by (simp add: spec_final_dim_def)
  show "spec_final_dim n p \<le> p \<and> p < spec_final_dim n p + ?m" if "?m \<le> p"
  proof -
    have "1 \<le> p div ?m"
      using that pos_imp_zdiv_pos_iff [of ?m p] by simp
    then have "?m \<le> p div ?m * ?m"
      using m by simp
    then have eq: "spec_final_dim n p = p - p mod ?m"
      by (simp add: spec_final_dim_def minus_mod_eq_div_mult)
    have "0 \<le> p mod ?m" "p mod ?m < ?m"
      using m by simp_all
    with eq show ?thesis by linarith
  qed
  show "spec_final_dim n p = ?m" if "p < ?m"
    using that assms by (simp add: spec_final_dim_def div_pos_pos_trivial)
qed

lemma align_mod_props:
  assumes "0 < n" and "0 \<le> p"
  shows "align_mod (2 ^ n) p = spec_final_dim n p
     \<and> 2 ^ n dvd align_mod (2 ^ n) p
     \<and> 2 ^ n \<le> align_mod (2 ^ n) p
     \<and> (2 ^ n \<le> p \<longrightarrow> align_mod (2 ^ n) p \<le> p \<and> p < align_mod (2 ^ n) p + 2 ^ n)
     \<and> (p < 2 ^ n \<longrightarrow> align_mod (2 ^ n) p = 2 ^ n)"
  using spec_final_dim_props [OF assms(2), of n]
  by (simp add: align_mod_spec [OF assms(1)])

lemma align_mod_ge_one:
  "1 \<le> w \<Longrightarrow> 1 \<le> align_mod m w"
  by (auto simp: align_mod_def max_def)

subsection \<open>The result of \<open>scale\<close>\<close>

lemma scale_eq:
  assumes "\<not> float_le_zero s"
    and "provisional (width c) s = Inr pw"
    and "provisional (height c) s = Inr ph"
    and "pick_resizer reg kname = Inr f"
  shows "scale reg c s kname =
           Inr (KernelCall f c
                 (Some (case format c of None \<Rightarrow> pw
                        | Some fmt \<Rightarrow> align_mod (2 ^ subsampling_w fmt) pw))
                 (Some (case format c of None \<Rightarrow> ph
                        | Some fmt \<Rightarrow> align_mod (2 ^ subsampling_h fmt) ph)))"
  using assms by (simp add: scale_def split: option.splits)

lemma scale_InrD:
  assumes "scale reg c s kname = Inr call"
  shows "\<not> float_le_zero s \<and>
         (\<exists>pw ph f. provisional (width c) s = Inr pw \<and> provisional (height c) s = Inr ph
            \<and> pick_resizer reg kname = Inr f
            \<and> call = KernelCall f c
                 (Some (case format c of None \<Rightarrow> pw
                        | Some fmt \<Rightarrow> align_mod (2 ^ subsampling_w fmt) pw))
                 (Some (case format c of None \<Rightarrow> ph
                        | Some fmt \<Rightarrow> align_mod (2 ^ subsampling_h fmt) ph)))"
proof -
  from assms have pos: "\<not> float_le_zero s"
    by (auto simp: scale_def split: if_splits)
  from assms pos obtain pw where pw: "provisional (width c) s = Inr pw"
    by (cases "provisional (width c) s") (simp_all add: scale_def)
  from assms pos pw obtain ph where ph: "provisional (height c) s = Inr ph"
    by (cases "provisional (height c) s") (simp_all add: scale_def)
  from assms pos pw ph obtain f where f: "pick_resizer reg kname = Inr f"
    by (cases "pick_resizer reg kname") (simp_all add: scale_def split: option.splits)
  from scale_eq [OF pos pw ph f] assms pos pw ph f show ?thesis
    by simp
qed

lemma float_le_zero_Finite [simp]: "float_le_zero (Finite q) \<longleftrightarrow> q \<le> 0"
  by (simp add: float_le_zero_def)

text \<open>
  The products are finite for every size and scale factor within wide bounds, so \<^verbatim>\<open>scale\<close>
  calls the kernel for them whenever the kernel name is known.
\<close>

lemma scale_calls_kernel:
  assumes "0 < q"
    and "\<bar>width c\<bar> < 2 ^ 53" and "\<bar>of_int (width c) * q\<bar> < 2 ^ 1023"
    and "\<bar>height c\<bar> < 2 ^ 53" and "\<bar>of_int (height c) * q\<bar> < 2 ^ 1023"
    and "pick_resizer reg kname = Inr f"
  shows "\<exists>w h. scale reg c (Finite q) kname = Inr (KernelCall f c (Some w) (Some h))"
proof -
  from assms(1) have pos: "\<not> float_le_zero (Finite q)"
    by simp
  from int_mul_float_finite [OF assms(2,3)] obtain pw
    where "int_mul_float (width c) (Finite q) = Inr (Finite pw)"
    by blast
  note w = provisional_Finite [OF this]
  from int_mul_float_finite [OF assms(4,5)] obtain ph
    where "int_mul_float (height c) (Finite q) = Inr (Finite ph)"
    by blast
  note h = provisional_Finite [OF this]
  from scale_eq [OF pos w h assms(6)] show ?thesis
    by blast
qed

subsection \<open>Resizing by a scale factor\<close>

text \<open>
  Claim C3. A scale factor that is less than or equal to 0 makes \<^verbatim>\<open>scale\<close> raise the
  \<^verbatim>\<open>ValueError\<close> of its first statement, whatever the clip, the kernel name and the table
  are: the result is that error, and no kernel is called.
\<close>

theorem scale_rejects_nonpositive:
  assumes "float_le_zero s"
  shows "scale reg c s kname = Inl (ValueError ''scale must be > 0'')"
  using assms by (simp add: scale_def)

theorem scale_rejects_nonpositive_witness:
  "float_le_zero (Finite 0) \<and> float_le_zero (Finite (- 3 / 2)) \<and> float_le_zero NegInf
   \<and> scale KERNELS \<lparr>width = 1920, height = 1080, format = None\<rparr> (Finite 0) ''bilinear''
       = Inl (ValueError ''scale must be > 0'')
   \<and> scale KERNELS \<lparr>width = 1920, height = 1080, format = None\<rparr> (Finite (- 3 / 2)) ''bilinear''
       = Inl (ValueError ''scale must be > 0'')
   \<and> scale KERNELS \<lparr>width = 1920, height = 1080, format = None\<rparr> NegInf ''bilinear''
       = Inl (ValueError ''scale must be > 0'')"
proof -
  have h: "float_le_zero (Finite 0)" "float_le_zero (Finite (- 3 / 2))" "float_le_zero NegInf"
    by (simp_all add: float_le_zero_def)
  from h h [THEN scale_rejects_nonpositive] show ?thesis
    by simp
qed

text \<open>
  Claim C9. The check of the scale factor comes before the lookup of the kernel: with a
  scale factor less than or equal to 0 and a kernel name that the lookup rejects, the error
  of \<^verbatim>\<open>scale\<close> is the one about the scale factor, which is not the error of the lookup.
\<close>

theorem scale_factor_checked_first:
  assumes "float_le_zero s"
    and "pick_resizer reg kname = Inl e"
  shows "scale reg c s kname = Inl (ValueError ''scale must be > 0'')
     \<and> e \<noteq> ValueError ''scale must be > 0''"
proof -
  from assms(2) have "e = ValueError (''Unknown kernel '' @ [CHR 0x27] @ kname @ [CHR 0x27]
      @ ''. Choose from: '' @ join '', '' (map fst reg))"
    by (simp add: pick_resizer_def split: option.splits)
  then have "e \<noteq> ValueError ''scale must be > 0''"
    by simp
  with assms(1) show ?thesis
    by (simp add: scale_def)
qed

theorem scale_factor_checked_first_witness:
  "float_le_zero (Finite (- 1))
   \<and> pick_resizer KERNELS ''box''
       = Inl (ValueError ''Unknown kernel 'box'. Choose from: point, bilinear, bicubic, lanczos, spline16, spline36, spline64'')
   \<and> scale KERNELS \<lparr>width = 1920, height = 1080, format = None\<rparr> (Finite (- 1)) ''box''
       = Inl (ValueError ''scale must be > 0'')"
proof -
  have h: "float_le_zero (Finite (- 1))"
    by (simp add: float_le_zero_def)
  have p: "pick_resizer KERNELS ''box''
       = Inl (ValueError ''Unknown kernel 'box'. Choose from: point, bilinear, bicubic, lanczos, spline16, spline36, spline64'')"
    by code_simp
  from scale_factor_checked_first [OF h p] h p show ?thesis
    by simp
qed

text \<open>
  Claim C2, as amended. For a clip without chroma subsampling (no format, or a format whose
  two subsampling exponents are 0) and a positive scale factor, the width and height passed
  to the kernel are the floors of the binary64 products of the source width and height with
  the scale factor, each raised to 1 when it is smaller. The products are the rounded
  products that the source computes, not the exact ones; \<^verbatim>\<open>scale\<close> calls the kernel when
  they are finite and the kernel name is known.
\<close>

theorem scale_without_subsampling:
  assumes "0 < q"
    and "case format c of None \<Rightarrow> True
         | Some fmt \<Rightarrow> subsampling_w fmt = 0 \<and> subsampling_h fmt = 0"
    and "int_mul_float (width c) (Finite q) = Inr (Finite pw)"
    and "int_mul_float (height c) (Finite q) = Inr (Finite ph)"
    and "pick_resizer reg kname = Inr f"
  shows "scale reg c (Finite q) kname =
           Inr (KernelCall f c (Some (max 1 \<lfloor>pw\<rfloor>)) (Some (max 1 \<lfloor>ph\<rfloor>)))"
proof -
  from assms(1) have pos: "\<not> float_le_zero (Finite q)"
    by simp
  note eq = scale_eq [OF pos provisional_Finite [OF assms(3)] provisional_Finite [OF assms(4)] assms(5)]
  show ?thesis
  proof (cases "format c")
    case None
    with eq show ?thesis by simp
  next
    case (Some fmt)
    with assms(2) have "subsampling_w fmt = 0" "subsampling_h fmt = 0"
      by simp_all
    with eq Some show ?thesis
      by (simp add: align_mod_def)
  qed
qed

theorem scale_without_subsampling_witness:
  "(0::rat) < 3 / 4
   \<and> (case format \<lparr>width = 1921, height = 1, format = Some \<lparr>subsampling_w = 0, subsampling_h = 0\<rparr>\<rparr>
        of None \<Rightarrow> True | Some fmt \<Rightarrow> subsampling_w fmt = 0 \<and> subsampling_h fmt = 0)
   \<and> int_mul_float 1921 (Finite (3 / 4)) = Inr (Finite (5763 / 4))
   \<and> int_mul_float 1 (Finite (3 / 4)) = Inr (Finite (3 / 4))
   \<and> pick_resizer KERNELS ''Spline36'' = Inr Spline36
   \<and> scale KERNELS \<lparr>width = 1921, height = 1, format = Some \<lparr>subsampling_w = 0, subsampling_h = 0\<rparr>\<rparr>
        (Finite (3 / 4)) ''Spline36''
       = Inr (KernelCall Spline36
               \<lparr>width = 1921, height = 1, format = Some \<lparr>subsampling_w = 0, subsampling_h = 0\<rparr>\<rparr>
               (Some 1440) (Some 1))"
proof -
  let ?c = "\<lparr>width = 1921, height = 1, format = Some \<lparr>subsampling_w = 0, subsampling_h = 0\<rparr>\<rparr>"
  have q: "(0::rat) < 3 / 4"
    by simp
  have n: "case format ?c of None \<Rightarrow> True
           | Some fmt \<Rightarrow> subsampling_w fmt = 0 \<and> subsampling_h fmt = 0"
    by simp
  have w: "int_mul_float 1921 (Finite (3 / 4)) = Inr (Finite (5763 / 4))"
    using int_mul_float_dyadic [of 1921 3 2] by simp
  have h: "int_mul_float 1 (Finite (3 / 4)) = Inr (Finite (3 / 4))"
    using int_mul_float_dyadic [of 1 3 2] by simp
  have p: "pick_resizer KERNELS ''Spline36'' = Inr Spline36"
    by code_simp
  have "scale KERNELS ?c (Finite (3 / 4)) ''Spline36''
          = Inr (KernelCall Spline36 ?c (Some (max 1 \<lfloor>5763 / 4 :: rat\<rfloor>))
                  (Some (max 1 \<lfloor>3 / 4 :: rat\<rfloor>)))"
    using scale_without_subsampling [of "3 / 4" ?c "5763 / 4" "3 / 4" KERNELS "''Spline36''" Spline36]
      q n w h p
    by simp
  with q n w h p show ?thesis
    by (simp add: floor_rat_numeral)
qed

lemma third_times_1920:
  "round_binary64 (1920 * (6004799503160661 / 18014398509481984)) = Finite 640"
proof (rule round_binary64_normal [where e = 9])
  show "(2::rat) powi 9 \<le> \<bar>1920 * (6004799503160661 / 18014398509481984)\<bar>"
    by simp
  show "\<bar>1920 * (6004799503160661 / 18014398509481984) :: rat\<bar> < 2 powi (9 + 1)"
    by simp
  show "(- 1022 :: int) \<le> 9"
    by simp
  show "(640::rat) = of_int (round_half_even (1920 * (6004799503160661 / 18014398509481984) / 2 powi (9 - 52)))
          * 2 powi (9 - 52)"
    by (simp add: power_int_minus round_half_even_def Let_def floor_rat_numeral)
  show "\<bar>640 :: rat\<bar> < 2 ^ 1024"
    by simp
qed

lemma third_times_1080:
  "round_binary64 (1080 * (6004799503160661 / 18014398509481984)) = Finite 360"
proof (rule round_binary64_normal [where e = 8])
  show "(2::rat) powi 8 \<le> \<bar>1080 * (6004799503160661 / 18014398509481984)\<bar>"
    by simp
  show "\<bar>1080 * (6004799503160661 / 18014398509481984) :: rat\<bar> < 2 powi (8 + 1)"
    by simp
  show "(- 1022 :: int) \<le> 8"
    by simp
  show "(360::rat) = of_int (round_half_even (1080 * (6004799503160661 / 18014398509481984) / 2 powi (8 - 52)))
          * 2 powi (8 - 52)"
    by (simp add: power_int_minus round_half_even_def Let_def floor_rat_numeral)
  show "\<bar>360 :: rat\<bar> < 2 ^ 1024"
    by simp
qed

text \<open>
  Claim C2 as stated, with the floor of the product of the source size and the scale
  factor, fails where the rounding of the product reaches the next integer. The binary64
  value nearest to one third is \<open>6004799503160661 / 2 ^ 54\<close>. Its exact products with 1920
  and 1080 lie just below 640 and 360, with floors 639 and 359; the binary64 products are
  640 and 360, and these are the width and height that \<^verbatim>\<open>scale\<close> passes.
\<close>

theorem scale_without_subsampling_counterexample:
  "round_binary64 (6004799503160661 / 18014398509481984) = Finite (6004799503160661 / 18014398509481984)
   \<and> (0::rat) < (6004799503160661 / 18014398509481984)
   \<and> scale KERNELS \<lparr>width = 1920, height = 1080, format = None\<rparr> (Finite (6004799503160661 / 18014398509481984)) ''bilinear''
       = Inr (KernelCall Bilinear \<lparr>width = 1920, height = 1080, format = None\<rparr> (Some 640) (Some 360))
   \<and> max 1 \<lfloor>of_int (width \<lparr>width = 1920, height = 1080, format = None\<rparr>) * (6004799503160661 / 18014398509481984) :: rat\<rfloor> = 639
   \<and> max 1 \<lfloor>of_int (height \<lparr>width = 1920, height = 1080, format = None\<rparr>) * (6004799503160661 / 18014398509481984) :: rat\<rfloor> = 359"
proof -
  let ?c = "\<lparr>width = 1920, height = 1080, format = None\<rparr>"
  let ?q = "(6004799503160661 / 18014398509481984) :: rat"
  have d: "round_binary64 ?q = Finite ?q"
    using round_binary64_dyadic [of 6004799503160661 54] by simp
  have q: "0 < ?q"
    by simp
  have pos: "\<not> float_le_zero (Finite ?q)"
    by simp
  have "float_of_int (width ?c) = Inr (Finite 1920)"
    using float_of_int_exact [of 1920] by simp
  then have "int_mul_float (width ?c) (Finite ?q) = Inr (float_mul (Finite 1920) (Finite ?q))"
    by (simp only: int_mul_float_def sum.case)
  also have "float_mul (Finite 1920) (Finite ?q) = Finite 640"
    by (simp only: float_mul.simps third_times_1920)
  finally have "int_mul_float (width ?c) (Finite ?q) = Inr (Finite 640)" .
  from provisional_Finite [OF this] have w: "provisional (width ?c) (Finite ?q) = Inr 640"
    by simp
  have "float_of_int (height ?c) = Inr (Finite 1080)"
    using float_of_int_exact [of 1080] by simp
  then have "int_mul_float (height ?c) (Finite ?q) = Inr (float_mul (Finite 1080) (Finite ?q))"
    by (simp only: int_mul_float_def sum.case)
  also have "float_mul (Finite 1080) (Finite ?q) = Finite 360"
    by (simp only: float_mul.simps third_times_1080)
  finally have "int_mul_float (height ?c) (Finite ?q) = Inr (Finite 360)" .
  from provisional_Finite [OF this] have h: "provisional (height ?c) (Finite ?q) = Inr 360"
    by simp
  have p: "pick_resizer KERNELS ''bilinear'' = Inr Bilinear"
    by code_simp
  from scale_eq [OF pos w h p]
  have call: "scale KERNELS ?c (Finite ?q) ''bilinear''
                = Inr (KernelCall Bilinear ?c (Some 640) (Some 360))"
    by simp
  have ew: "max 1 \<lfloor>of_int (width ?c) * ?q\<rfloor> = 639"
    by (simp add: floor_rat_numeral)
  have eh: "max 1 \<lfloor>of_int (height ?c) * ?q\<rfloor> = 359"
    by (simp add: floor_rat_numeral)
  from d q call ew eh show ?thesis
    by (intro conjI)
qed



text \<open>
  Claim C10. Whenever \<^verbatim>\<open>scale\<close> calls a kernel, which it does for positive scale factors
  only, the width and height it passes are at least 1, and on an axis whose subsampling
  exponent \<open>n\<close> is greater than 0 the size passed is at least \<open>2 ^ n\<close>. On such an axis a
  provisional size (the floor of the product, raised to 1) below \<open>2 ^ n\<close> is replaced by
  \<open>2 ^ n\<close>, so the size passed exceeds the provisional size there.
\<close>

theorem scale_size_lower_bounds:
  assumes "scale reg c s kname = Inr (KernelCall f c' w h)"
  shows "\<not> float_le_zero s \<and>
     (\<exists>pw ph wi hi.
        provisional (width c) s = Inr pw \<and> provisional (height c) s = Inr ph
        \<and> w = Some wi \<and> h = Some hi \<and> 1 \<le> wi \<and> 1 \<le> hi
        \<and> (\<forall>fmt. format c = Some fmt \<longrightarrow>
              (0 < subsampling_w fmt \<longrightarrow>
                 2 ^ subsampling_w fmt \<le> wi
                 \<and> (pw < 2 ^ subsampling_w fmt \<longrightarrow> wi = 2 ^ subsampling_w fmt \<and> pw < wi))
              \<and> (0 < subsampling_h fmt \<longrightarrow>
                 2 ^ subsampling_h fmt \<le> hi
                 \<and> (ph < 2 ^ subsampling_h fmt \<longrightarrow> hi = 2 ^ subsampling_h fmt \<and> ph < hi))))"
proof -
  from scale_InrD [OF assms] obtain pw ph g where
    pos: "\<not> float_le_zero s"
    and pw: "provisional (width c) s = Inr pw"
    and ph: "provisional (height c) s = Inr ph"
    and call: "KernelCall f c' w h = KernelCall g c
                 (Some (case format c of None \<Rightarrow> pw
                        | Some fmt \<Rightarrow> align_mod (2 ^ subsampling_w fmt) pw))
                 (Some (case format c of None \<Rightarrow> ph
                        | Some fmt \<Rightarrow> align_mod (2 ^ subsampling_h fmt) ph))"
    by blast
  define wi where "wi = (case format c of None \<Rightarrow> pw
                         | Some fmt \<Rightarrow> align_mod (2 ^ subsampling_w fmt) pw)"
  define hi where "hi = (case format c of None \<Rightarrow> ph
                         | Some fmt \<Rightarrow> align_mod (2 ^ subsampling_h fmt) ph)"
  from call have w: "w = Some wi" and h: "h = Some hi"
    by (simp_all add: wi_def hi_def)
  have pw1: "1 \<le> pw" and ph1: "1 \<le> ph"
    using pw ph by (auto dest: provisional_ge_one)
  have wi1: "1 \<le> wi"
    using pw1 by (simp add: wi_def align_mod_ge_one split: option.splits)
  have hi1: "1 \<le> hi"
    using ph1 by (simp add: hi_def align_mod_ge_one split: option.splits)
  have fw: "2 ^ subsampling_w fmt \<le> wi
            \<and> (pw < 2 ^ subsampling_w fmt \<longrightarrow> wi = 2 ^ subsampling_w fmt \<and> pw < wi)"
    if "format c = Some fmt" and "0 < subsampling_w fmt" for fmt
  proof -
    from pw1 have "0 \<le> pw" by simp
    from align_mod_props [OF that(2) this]
    have "2 ^ subsampling_w fmt \<le> align_mod (2 ^ subsampling_w fmt) pw"
      and "pw < 2 ^ subsampling_w fmt \<longrightarrow> align_mod (2 ^ subsampling_w fmt) pw = 2 ^ subsampling_w fmt"
      by blast+
    moreover have "wi = align_mod (2 ^ subsampling_w fmt) pw"
      using that(1) by (simp add: wi_def)
    ultimately show ?thesis
      by auto
  qed
  have fh: "2 ^ subsampling_h fmt \<le> hi
            \<and> (ph < 2 ^ subsampling_h fmt \<longrightarrow> hi = 2 ^ subsampling_h fmt \<and> ph < hi)"
    if "format c = Some fmt" and "0 < subsampling_h fmt" for fmt
  proof -
    from ph1 have "0 \<le> ph" by simp
    from align_mod_props [OF that(2) this]
    have "2 ^ subsampling_h fmt \<le> align_mod (2 ^ subsampling_h fmt) ph"
      and "ph < 2 ^ subsampling_h fmt \<longrightarrow> align_mod (2 ^ subsampling_h fmt) ph = 2 ^ subsampling_h fmt"
      by blast+
    moreover have "hi = align_mod (2 ^ subsampling_h fmt) ph"
      using that(1) by (simp add: hi_def)
    ultimately show ?thesis
      by auto
  qed
  have fmts: "\<forall>fmt. format c = Some fmt \<longrightarrow>
              (0 < subsampling_w fmt \<longrightarrow>
                 2 ^ subsampling_w fmt \<le> wi
                 \<and> (pw < 2 ^ subsampling_w fmt \<longrightarrow> wi = 2 ^ subsampling_w fmt \<and> pw < wi))
              \<and> (0 < subsampling_h fmt \<longrightarrow>
                 2 ^ subsampling_h fmt \<le> hi
                 \<and> (ph < 2 ^ subsampling_h fmt \<longrightarrow> hi = 2 ^ subsampling_h fmt \<and> ph < hi))"
    using fw fh by blast
  show ?thesis
  proof (intro conjI exI)
    show "\<not> float_le_zero s" by (rule pos)
    show "provisional (width c) s = Inr pw" by (rule pw)
    show "provisional (height c) s = Inr ph" by (rule ph)
    show "w = Some wi" by (rule w)
    show "h = Some hi" by (rule h)
    show "1 \<le> wi" by (rule wi1)
    show "1 \<le> hi" by (rule hi1)
    show "\<forall>fmt. format c = Some fmt \<longrightarrow>
              (0 < subsampling_w fmt \<longrightarrow>
                 2 ^ subsampling_w fmt \<le> wi
                 \<and> (pw < 2 ^ subsampling_w fmt \<longrightarrow> wi = 2 ^ subsampling_w fmt \<and> pw < wi))
              \<and> (0 < subsampling_h fmt \<longrightarrow>
                 2 ^ subsampling_h fmt \<le> hi
                 \<and> (ph < 2 ^ subsampling_h fmt \<longrightarrow> hi = 2 ^ subsampling_h fmt \<and> ph < hi))"
      by (rule fmts)
  qed
qed

theorem scale_size_lower_bounds_witness:
  "scale KERNELS \<lparr>width = 3, height = 2, format = Some \<lparr>subsampling_w = 1, subsampling_h = 2\<rparr>\<rparr> (Finite (1 / 2)) ''point'' = Inr (KernelCall Point \<lparr>width = 3, height = 2, format = Some \<lparr>subsampling_w = 1, subsampling_h = 2\<rparr>\<rparr> (Some 2) (Some 4))
   \<and> \<not> float_le_zero (Finite (1 / 2))
   \<and> (\<exists>pw ph wi hi.
        provisional (width \<lparr>width = 3, height = 2, format = Some \<lparr>subsampling_w = 1, subsampling_h = 2\<rparr>\<rparr>) (Finite (1 / 2)) = Inr pw \<and> provisional (height \<lparr>width = 3, height = 2, format = Some \<lparr>subsampling_w = 1, subsampling_h = 2\<rparr>\<rparr>) (Finite (1 / 2)) = Inr ph
        \<and> Some 2 = Some wi \<and> Some 4 = Some hi \<and> 1 \<le> wi \<and> 1 \<le> hi
        \<and> (\<forall>fmt. format \<lparr>width = 3, height = 2, format = Some \<lparr>subsampling_w = 1, subsampling_h = 2\<rparr>\<rparr> = Some fmt \<longrightarrow>
              (0 < subsampling_w fmt \<longrightarrow>
                 2 ^ subsampling_w fmt \<le> wi
                 \<and> (pw < 2 ^ subsampling_w fmt \<longrightarrow> wi = 2 ^ subsampling_w fmt \<and> pw < wi))
              \<and> (0 < subsampling_h fmt \<longrightarrow>
                 2 ^ subsampling_h fmt \<le> hi
                 \<and> (ph < 2 ^ subsampling_h fmt \<longrightarrow> hi = 2 ^ subsampling_h fmt \<and> ph < hi))))"
proof -
  let ?c = "\<lparr>width = 3, height = 2, format = Some \<lparr>subsampling_w = 1, subsampling_h = 2\<rparr>\<rparr>"
  have pos: "\<not> float_le_zero (Finite (1 / 2))"
    by simp
  have "int_mul_float 3 (Finite (1 / 2)) = Inr (Finite (3 / 2))"
    using int_mul_float_dyadic [of 3 1 1] by simp
  from provisional_Finite [OF this] have pw: "provisional (width ?c) (Finite (1 / 2)) = Inr 1"
    by (simp add: floor_rat_numeral)
  have "int_mul_float 2 (Finite (1 / 2)) = Inr (Finite 1)"
    using int_mul_float_dyadic [of 2 1 1] by simp
  from provisional_Finite [OF this] have ph: "provisional (height ?c) (Finite (1 / 2)) = Inr 1"
    by simp
  have p: "pick_resizer KERNELS ''point'' = Inr Point"
    by code_simp
  from scale_eq [OF pos pw ph p]
  have call: "scale KERNELS ?c (Finite (1 / 2)) ''point'' = Inr (KernelCall Point ?c (Some 2) (Some 4))"
    by (simp add: align_mod_def)
  note t = scale_size_lower_bounds [OF call]
  from t have a: "\<not> float_le_zero (Finite (1 / 2))"
    by (rule conjunct1)
  from t have b: "(\<exists>pw ph wi hi.
        provisional (width \<lparr>width = 3, height = 2, format = Some \<lparr>subsampling_w = 1, subsampling_h = 2\<rparr>\<rparr>) (Finite (1 / 2)) = Inr pw \<and> provisional (height \<lparr>width = 3, height = 2, format = Some \<lparr>subsampling_w = 1, subsampling_h = 2\<rparr>\<rparr>) (Finite (1 / 2)) = Inr ph
        \<and> Some 2 = Some wi \<and> Some 4 = Some hi \<and> 1 \<le> wi \<and> 1 \<le> hi
        \<and> (\<forall>fmt. format \<lparr>width = 3, height = 2, format = Some \<lparr>subsampling_w = 1, subsampling_h = 2\<rparr>\<rparr> = Some fmt \<longrightarrow>
              (0 < subsampling_w fmt \<longrightarrow>
                 2 ^ subsampling_w fmt \<le> wi
                 \<and> (pw < 2 ^ subsampling_w fmt \<longrightarrow> wi = 2 ^ subsampling_w fmt \<and> pw < wi))
              \<and> (0 < subsampling_h fmt \<longrightarrow>
                 2 ^ subsampling_h fmt \<le> hi
                 \<and> (ph < 2 ^ subsampling_h fmt \<longrightarrow> hi = 2 ^ subsampling_h fmt \<and> ph < hi))))"
    by (rule conjunct2)
  from call a b show ?thesis
    by (intro conjI)
qed

text \<open>
  Claim C7. For a clip of width 101 whose format has horizontal subsampling exponent 1, and
  the scale factor 0.5: the product of 101 and 0.5 is 50.5, the provisional width is its
  floor 50, which is a multiple of 2, and 50 is the width of every kernel call that \<^verbatim>\<open>scale\<close>
  makes; it makes the call when the kernel name is known and the provisional height exists.
\<close>

theorem scale_half_of_101:
  assumes "width c = 101" and "format c = Some fmt" and "subsampling_w fmt = 1"
  shows "int_mul_float (width c) (Finite (1 / 2)) = Inr (Finite (101 / 2))
     \<and> provisional (width c) (Finite (1 / 2)) = Inr 50
     \<and> (2::int) ^ subsampling_w fmt dvd 50
     \<and> (\<forall>f c' w h. scale reg c (Finite (1 / 2)) kname = Inr (KernelCall f c' w h)
            \<longrightarrow> w = Some 50)
     \<and> (\<forall>f ph. pick_resizer reg kname = Inr f \<and> provisional (height c) (Finite (1 / 2)) = Inr ph
            \<longrightarrow> (\<exists>h. scale reg c (Finite (1 / 2)) kname = Inr (KernelCall f c (Some 50) (Some h))))"
proof -
  have pos: "\<not> float_le_zero (Finite (1 / 2))"
    by simp
  have m: "int_mul_float (width c) (Finite (1 / 2)) = Inr (Finite (101 / 2))"
    using int_mul_float_dyadic [of 101 1 1] assms(1) by simp
  from provisional_Finite [OF m] have pw: "provisional (width c) (Finite (1 / 2)) = Inr 50"
    by (simp add: floor_rat_numeral)
  have al: "align_mod (2 ^ subsampling_w fmt) 50 = 50"
    by (simp add: assms(3) align_mod_def)
  have d: "(2::int) ^ subsampling_w fmt dvd 50"
    by (simp add: assms(3))
  have part: "w = Some 50"
    if "scale reg c (Finite (1 / 2)) kname = Inr (KernelCall f c' w h)" for f c' w h
    using scale_InrD [OF that] pw al assms(2) by auto
  have tot: "\<exists>h. scale reg c (Finite (1 / 2)) kname = Inr (KernelCall f c (Some 50) (Some h))"
    if "pick_resizer reg kname = Inr f" and "provisional (height c) (Finite (1 / 2)) = Inr ph"
    for f ph
    using scale_eq [OF pos pw that(2) that(1)] al assms(2) by simp
  from m pw d part tot show ?thesis
    by blast
qed

theorem scale_half_of_101_witness:
  "width \<lparr>width = 101, height = 57, format = Some \<lparr>subsampling_w = 1, subsampling_h = 1\<rparr>\<rparr> = 101
   \<and> format \<lparr>width = 101, height = 57, format = Some \<lparr>subsampling_w = 1, subsampling_h = 1\<rparr>\<rparr>
       = Some \<lparr>subsampling_w = 1, subsampling_h = 1\<rparr>
   \<and> subsampling_w \<lparr>subsampling_w = 1, subsampling_h = 1\<rparr> = 1
   \<and> scale KERNELS \<lparr>width = 101, height = 57, format = Some \<lparr>subsampling_w = 1, subsampling_h = 1\<rparr>\<rparr>
        (Finite (1 / 2)) ''bilinear''
       = Inr (KernelCall Bilinear
               \<lparr>width = 101, height = 57, format = Some \<lparr>subsampling_w = 1, subsampling_h = 1\<rparr>\<rparr>
               (Some 50) (Some 28))"
proof -
  let ?fmt = "\<lparr>subsampling_w = 1, subsampling_h = 1\<rparr>"
  let ?c = "\<lparr>width = 101, height = 57, format = Some ?fmt\<rparr>"
  have w: "width ?c = 101" and fm: "format ?c = Some ?fmt" and ss: "subsampling_w ?fmt = 1"
    by simp_all
  have pos: "\<not> float_le_zero (Finite (1 / 2))"
    by simp
  have "int_mul_float 57 (Finite (1 / 2)) = Inr (Finite (57 / 2))"
    using int_mul_float_dyadic [of 57 1 1] by simp
  from provisional_Finite [OF this] have ph: "provisional (height ?c) (Finite (1 / 2)) = Inr 28"
    by (simp add: floor_rat_numeral)
  have p: "pick_resizer KERNELS ''bilinear'' = Inr Bilinear"
    by code_simp
  note t = scale_half_of_101 [OF w fm ss, of KERNELS "''bilinear''"]
  from t have pw: "provisional (width ?c) (Finite (1 / 2)) = Inr 50"
    by blast
  from scale_eq [OF pos pw ph p] obtain a b where
    call: "scale KERNELS ?c (Finite (1 / 2)) ''bilinear'' = Inr (KernelCall Bilinear ?c (Some a) (Some b))"
    and b: "b = 28"
    by (simp add: align_mod_def)
  from t call have "a = 50"
    by blast
  with call b w fm ss show ?thesis
    by simp
qed

end
